theory Spec2Isabelle
  imports Main "HOL-Library.Monad_Syntax"
begin

section \<open>The outgoing-message draft store (src/helpers/useMessage.ts)\<close>

text \<open>
  The TypeScript interfaces \<^verbatim>\<open>UploadedFile\<close>, \<^verbatim>\<open>Reply\<close> and \<^verbatim>\<open>Message\<close>.
  Optional fields (\<^verbatim>\<open>file?\<close>, \<^verbatim>\<open>reply?\<close>, \<^verbatim>\<open>text?\<close>) are options, with
  \<^verbatim>\<open>undefined\<close> as \<open>None\<close>. Field names carry a suffix where two interfaces share
  a name or the name is a HOL constant.
\<close>

record UploadedFile =
  url_file :: string
  name_file :: string
  size_file :: int
  type_file :: string

record Reply =
  messageId_reply :: string
  type_reply :: string
  text_reply :: "string option"
  url_reply :: "string option"
  filename :: "string option"

record Message =
  id_msg :: string
  text_msg :: string
  file_msg :: "UploadedFile option"
  reply_msg :: "Reply option"
  forceSend :: bool

text \<open>
  \<^verbatim>\<open>const messages = ref<Message[]>([])\<close> is one module-level list. Every function
  below takes the current list and returns the new one. A TypeError is what reading
  a property of \<^verbatim>\<open>undefined\<close> throws.
\<close>

datatype error = TypeError

text \<open>\<^verbatim>\<open>Array.prototype.indexOf\<close>: the first position of the element, or -1.\<close>

fun indexOf :: "'a list \<Rightarrow> 'a \<Rightarrow> int" where
  "indexOf [] x = - 1"
| "indexOf (y # ys) x =
     (if y = x then 0
      else (let r = indexOf ys x in if r < 0 then - 1 else r + 1))"

text \<open>The draft that \<^verbatim>\<open>useMessage\<close> pushes when no draft has the given id.\<close>

definition newMessage :: "string \<Rightarrow> Message" where
  "newMessage outId =
     \<lparr>id_msg = outId, text_msg = [], file_msg = None, reply_msg = None, forceSend = False\<rparr>"

text \<open>
  \<^verbatim>\<open>useMessage(outId)\<close>: returns the value of the closure's \<^verbatim>\<open>index\<close> and the
  list after the call.
\<close>

definition useMessage :: "string \<Rightarrow> Message list \<Rightarrow> int \<times> Message list" where
  "useMessage outId messages =
     (case find (\<lambda>m. id_msg m = outId) messages of
        Some foundMessage \<Rightarrow> (indexOf messages foundMessage, messages)
      | None \<Rightarrow>
          (let messages' = messages @ [newMessage outId]
           in (int (length messages') - 1, messages')))"

text \<open>\<^verbatim>\<open>messages.value[index.value]\<close>: \<^verbatim>\<open>undefined\<close> outside the list.\<close>

definition getMessage :: "int \<Rightarrow> Message list \<Rightarrow> Message option" where
  "getMessage index messages =
     (if 0 \<le> index \<and> index < int (length messages)
      then Some (messages ! nat index) else None)"

definition resetMessage :: "int \<Rightarrow> Message list \<Rightarrow> error + Message list" where
  "resetMessage index messages =
     (case getMessage index messages of
        None \<Rightarrow> Inl TypeError
      | Some m \<Rightarrow>
          Inr (messages[nat index :=
            \<lparr>id_msg = id_msg m, text_msg = [], file_msg = None, reply_msg = None,
             forceSend = False\<rparr>]))"

definition setMessageText :: "string \<Rightarrow> int \<Rightarrow> Message list \<Rightarrow> error + Message list" where
  "setMessageText text index messages =
     (case getMessage index messages of
        None \<Rightarrow> Inl TypeError
      | Some m \<Rightarrow>
          Inr (messages[nat index :=
            \<lparr>id_msg = id_msg m, text_msg = text, file_msg = file_msg m,
             reply_msg = reply_msg m, forceSend = False\<rparr>]))"

definition setMessageFile :: "UploadedFile \<Rightarrow> int \<Rightarrow> Message list \<Rightarrow> error + Message list" where
  "setMessageFile file index messages =
     (case getMessage index messages of
        None \<Rightarrow> Inl TypeError
      | Some m \<Rightarrow>
          Inr (messages[nat index :=
            \<lparr>id_msg = id_msg m, text_msg = text_msg m, file_msg = Some file,
             reply_msg = reply_msg m, forceSend = False\<rparr>]))"

definition resetMessageFile :: "int \<Rightarrow> Message list \<Rightarrow> error + Message list" where
  "resetMessageFile index messages =
     (case getMessage index messages of
        None \<Rightarrow> Inl TypeError
      | Some m \<Rightarrow>
          Inr (messages[nat index :=
            \<lparr>id_msg = id_msg m, text_msg = text_msg m, file_msg = None,
             reply_msg = reply_msg m, forceSend = False\<rparr>]))"

definition setReply :: "Reply \<Rightarrow> int \<Rightarrow> Message list \<Rightarrow> error + Message list" where
  "setReply reply index messages =
     (case getMessage index messages of
        None \<Rightarrow> Inl TypeError
      | Some m \<Rightarrow>
          Inr (messages[nat index :=
            \<lparr>id_msg = id_msg m, text_msg = text_msg m, file_msg = file_msg m,
             reply_msg = Some reply, forceSend = False\<rparr>]))"

definition resetReply :: "int \<Rightarrow> Message list \<Rightarrow> error + Message list" where
  "resetReply index messages =
     (case getMessage index messages of
        None \<Rightarrow> Inl TypeError
      | Some m \<Rightarrow>
          Inr (messages[nat index :=
            \<lparr>id_msg = id_msg m, text_msg = text_msg m, file_msg = file_msg m,
             reply_msg = None, forceSend = False\<rparr>]))"

text \<open>\<^verbatim>\<open>messages.value[index.value].forceSend = val\<close> assigns one field in place.\<close>

definition setForceSendMessage :: "bool \<Rightarrow> int \<Rightarrow> Message list \<Rightarrow> error + Message list" where
  "setForceSendMessage val index messages =
     (case getMessage index messages of
        None \<Rightarrow> Inl TypeError
      | Some m \<Rightarrow> Inr (messages[nat index := m\<lparr>forceSend := val\<rparr>]))"

text \<open>
  What the rest of the process can do to the shared list between two calls of
  \<^verbatim>\<open>useMessage\<close>: call \<^verbatim>\<open>useMessage\<close> for some id, or call one of the returned
  functions through a handle (the \<^verbatim>\<open>index\<close> of the closure it belongs to).
\<close>

datatype action =
    UseMessage string
  | ResetMessage int
  | SetMessageText string int
  | SetMessageFile UploadedFile int
  | ResetMessageFile int
  | SetReply Reply int
  | ResetReply int
  | SetForceSendMessage bool int

fun perform :: "action \<Rightarrow> Message list \<Rightarrow> error + Message list" where
  "perform (UseMessage outId) ms = Inr (snd (useMessage outId ms))"
| "perform (ResetMessage i) ms = resetMessage i ms"
| "perform (SetMessageText t i) ms = setMessageText t i ms"
| "perform (SetMessageFile f i) ms = setMessageFile f i ms"
| "perform (ResetMessageFile i) ms = resetMessageFile i ms"
| "perform (SetReply r i) ms = setReply r i ms"
| "perform (ResetReply i) ms = resetReply i ms"
| "perform (SetForceSendMessage v i) ms = setForceSendMessage v i ms"

fun performAll :: "action list \<Rightarrow> Message list \<Rightarrow> error + Message list" where
  "performAll [] ms = Inr ms"
| "performAll (a # as) ms =
     (case perform a ms of Inl e \<Rightarrow> Inl e | Inr ms' \<Rightarrow> performAll as ms')"

text \<open>
  Two notions used to state that a handle keeps pointing at its draft: the position
  of the first draft with a given id, and the relation "every slot of the first list
  still holds a draft with the same id in the second".
\<close>

definition firstWithId :: "string \<Rightarrow> Message list \<Rightarrow> nat" where
  "firstWithId outId ms = length (takeWhile (\<lambda>i. i \<noteq> outId) (map id_msg ms))"

definition idsKept :: "Message list \<Rightarrow> Message list \<Rightarrow> bool" where
  "idsKept ms ms2 \<longleftrightarrow> take (length ms) (map id_msg ms2) = map id_msg ms"

section \<open>The feed's scroll handler and intersection observer (Feed.vue, as documented)\<close>

text \<open>
  \<^verbatim>\<open>feedContainer.value\<close> with the three properties \<^verbatim>\<open>handleScroll\<close> reads. They
  are JavaScript numbers; the handler only subtracts and compares them, so they are
  integers here.
\<close>

record FeedContainer =
  scrollTop :: int
  scrollHeight :: int
  clientHeight :: int

text \<open>
  What the component emits. \<^verbatim>\<open>emit('messageVisible', { messageId })\<close> carries one
  identifier. \<open>EmitVisibleMessages\<close> records the call of \<^verbatim>\<open>emitVisibleMessages()\<close>,
  whose body the documented source does not show.
\<close>

datatype emitted =
    LoadMore
  | LoadMoreDown
  | MessageVisible string
  | EmitVisibleMessages

text \<open>
  \<^verbatim>\<open>handleScroll\<close>: takes the container (\<open>None\<close> when \<^verbatim>\<open>feedContainer.value\<close> is
  not set) and the value of the \<^verbatim>\<open>scrollTop\<close> ref, returns the new value of the ref
  and the events emitted, in order. The threshold 300 is the constant of the source.
\<close>

definition handleScroll :: "FeedContainer option \<Rightarrow> int \<Rightarrow> int \<times> emitted list" where
  "handleScroll feedContainer scrollTopRef =
     (case feedContainer of
        None \<Rightarrow> (scrollTopRef, [])
      | Some c \<Rightarrow>
          (let newScrollTop = scrollTop c
           in (newScrollTop,
               (if newScrollTop < 300 then [LoadMore] else [])
               @ (if scrollHeight c - newScrollTop - clientHeight c < 300
                  then [LoadMoreDown] else [])
               @ [EmitVisibleMessages])))"

text \<open>A sequence of scroll events: the handler runs once per event.\<close>

fun scrollEvents :: "FeedContainer option list \<Rightarrow> int \<Rightarrow> int \<times> emitted list" where
  "scrollEvents [] scrollTopRef = (scrollTopRef, [])"
| "scrollEvents (c # cs) scrollTopRef =
     (let (scrollTopRef', es) = handleScroll c scrollTopRef;
          (scrollTopRef'', es') = scrollEvents cs scrollTopRef'
      in (scrollTopRef'', es @ es'))"

text \<open>The condition under which one scroll event emits \<^verbatim>\<open>loadMore\<close>.\<close>

definition inTopZone :: "FeedContainer option \<Rightarrow> bool" where
  "inTopZone feedContainer =
     (case feedContainer of None \<Rightarrow> False | Some c \<Rightarrow> scrollTop c < 300)"

text \<open>
  An \<^verbatim>\<open>IntersectionObserverEntry\<close>, as far as the callback reads it:
  \<^verbatim>\<open>entry.isIntersecting\<close> and \<^verbatim>\<open>entry.target.getAttribute('data-message-id')\<close>,
  which is \<^verbatim>\<open>null\<close> (\<open>None\<close>) when the attribute is missing.
\<close>

record ObserverEntry =
  isIntersecting :: bool
  dataMessageId :: "string option"

text \<open>
  The callback given to \<^verbatim>\<open>new IntersectionObserver\<close>: \<^verbatim>\<open>entries.forEach\<close> with an
  \<^verbatim>\<open>emit\<close> inside the loop. \<^verbatim>\<open>if (messageId)\<close> is false for \<^verbatim>\<open>null\<close> and for
  the empty string.
\<close>

definition observerCallback :: "ObserverEntry list \<Rightarrow> emitted list" where
  "observerCallback entries =
     concat (map (\<lambda>entry.
       if isIntersecting entry
       then (case dataMessageId entry of
               Some messageId \<Rightarrow> if messageId \<noteq> [] then [MessageVisible messageId] else []
             | None \<Rightarrow> [])
       else []) entries)"

text \<open>The entries for which the callback emits.\<close>

definition reportsId :: "ObserverEntry \<Rightarrow> bool" where
  "reportsId entry \<longleftrightarrow>
     isIntersecting entry \<and> dataMessageId entry \<noteq> None \<and> dataMessageId entry \<noteq> Some []"

section \<open>The windowing engine (\<^verbatim>\<open>useVirtualList\<close> / \<^verbatim>\<open>computeWindow\<close>)\<close>

text \<open>
  The documented source gives the signature of \<^verbatim>\<open>useVirtualList(items, options, getId)\<close>,
  its default \<^verbatim>\<open>getId = (_, index) => index\<close>, the props \<^verbatim>\<open>itemHeight\<close> (default 80)
  and \<^verbatim>\<open>overscan\<close> (default 5) and the fields the template reads
  (\<^verbatim>\<open>item.id\<close>, \<^verbatim>\<open>item.offset\<close>, \<^verbatim>\<open>item.data\<close>, \<^verbatim>\<open>totalHeight\<close>). The body of the
  function is not part of it. The definitions of this section follow section 3 and
  section 4.1 of the specification instead, sentence by sentence.
\<close>

text \<open>
  Modelled from the spec: the identifier of an item, "a stable identifier (string or
  integer)"; \<^verbatim>\<open>getId\<close> returns \<^verbatim>\<open>string | number\<close>.
\<close>

datatype ident = StrId string | NumId int

text \<open>
  Modelled from the spec: an item, "opaque payload of type T plus a stable identifier".
\<close>

record 'a Item =
  item_id :: ident
  payload :: 'a

text \<open>
  Modelled from the spec: the height model, "either a single fixed height applied to
  all items, or a per-item height lookup (identifier to height) supplied by the caller;
  if a lookup omits an identifier, a fallback default height is used. Heights are
  non-negative; zero height is legal".
\<close>

datatype heightModel =
    FixedHeight nat
  | HeightLookup "ident \<Rightarrow> nat option" nat

fun heightOf :: "heightModel \<Rightarrow> 'a Item \<Rightarrow> nat" where
  "heightOf (FixedHeight h) it = h"
| "heightOf (HeightLookup lookup fallback) it =
     (case lookup (item_id it) of Some h \<Rightarrow> h | None \<Rightarrow> fallback)"

text \<open>
  Modelled from the spec: step 1, the table of cumulative offsets. Entry \<open>i\<close> is the
  offset of item \<open>i\<close> ("sum of heights of all preceding items"); the table has one
  more entry than there are items, and its last entry is the total extent ("last
  cumulative offset value (0 for an empty sequence)").
\<close>

fun cumulativeFrom :: "nat \<Rightarrow> nat list \<Rightarrow> nat list" where
  "cumulativeFrom acc [] = [acc]"
| "cumulativeFrom acc (h # hs) = acc # cumulativeFrom (acc + h) hs"

definition cumulativeOffsets :: "nat list \<Rightarrow> nat list" where
  "cumulativeOffsets hs = cumulativeFrom 0 hs"

text \<open>
  A read of a table or of the item sequence. A read outside the table has no value:
  it is the failure that "does not crash offset computation" rules out, so it is a
  result (\<open>None\<close>) of every function below and not an unspecified number.
\<close>

definition tableAt :: "'b list \<Rightarrow> nat \<Rightarrow> 'b option" where
  "tableAt t i = (if i < length t then Some (t ! i) else None)"

text \<open>
  Modelled from the spec: step 2, "binary-search the cumulative-offset table for the
  first index whose ...". The search is over the indices \<open>lo..<hi\<close>; the test reads
  the table and may fail; \<open>hi\<close> is the answer when no index passes.
\<close>

function firstIndexWhere :: "(nat \<Rightarrow> bool option) \<Rightarrow> nat \<Rightarrow> nat \<Rightarrow> nat option" where
  "firstIndexWhere p lo hi =
     (if lo < hi
      then (let mid = (lo + hi) div 2
            in case p mid of
                 None \<Rightarrow> None
               | Some True \<Rightarrow> firstIndexWhere p lo mid
               | Some False \<Rightarrow> firstIndexWhere p (mid + 1) hi)
      else Some lo)"
  by pat_completeness auto
termination
  by (relation "measure (\<lambda>(p, lo, hi). hi - lo)") auto

declare firstIndexWhere.simps [simp del]

text \<open>
  Modelled from the spec: a visible item, "a materialized item annotated with its
  index, its absolute offset and its height"; the host surface receives
  \<open>(id, offset, height, payload)\<close> per entry.
\<close>

record 'a VisibleItem =
  vi_index :: nat
  vi_id :: ident
  vi_offset :: nat
  vi_height :: nat
  vi_data :: 'a

text \<open>
  Modelled from the spec: the result of \<^verbatim>\<open>computeWindow\<close>,
  \<^verbatim>\<open>{ visibleItems, totalExtent, window: {startIndex, endIndex} }\<close>.
\<close>

record 'a Window =
  visibleItems :: "'a VisibleItem list"
  totalExtent :: nat
  startIndex :: nat
  endIndex :: nat

text \<open>
  Modelled from the spec: step 4, "emit one VisibleItem per index with its precomputed
  offset and height".
\<close>

definition visibleItemAt ::
  "'a Item list \<Rightarrow> heightModel \<Rightarrow> nat list \<Rightarrow> nat \<Rightarrow> 'a VisibleItem option" where
  "visibleItemAt items hm table i =
     do { it \<leftarrow> tableAt items i;
          off \<leftarrow> tableAt table i;
          Some \<lparr>vi_index = i, vi_id = item_id it, vi_offset = off,
                vi_height = heightOf hm it, vi_data = payload it\<rparr> }"

text \<open>
  Modelled from the spec: \<^verbatim>\<open>computeWindow(items, heightModel, viewportHeight,
  scrollOffset, overscan)\<close>, steps 1 to 5 of section 4.1 with its edge cases:
  a negative scroll offset is clamped to 0, a negative overscan is clamped to 0, a
  viewport height \<open>\<le> 0\<close> gives a window of size 0 (the spec does not say where; it
  is \<open>[0, 0)\<close> here) without searching. The start of the visible range is "the first
  index whose offset + height exceeds scrollOffset", its end "the first index whose
  offset exceeds scrollOffset + viewportHeight"; the start is expanded by the overscan
  with a floor at 0 (subtraction on \<open>nat\<close>), the end with a cap at the length.
\<close>

definition computeWindow ::
  "'a Item list \<Rightarrow> heightModel \<Rightarrow> int \<Rightarrow> int \<Rightarrow> int \<Rightarrow> 'a Window option" where
  "computeWindow items hm viewportHeight scrollOffset overscan =
     (let n = length items;
          table = cumulativeOffsets (map (heightOf hm) items);
          edge = max 0 scrollOffset;
          extra = nat (max 0 overscan)
      in do {
        total \<leftarrow> tableAt table n;
        if viewportHeight \<le> 0
        then Some \<lparr>visibleItems = [], totalExtent = total, startIndex = 0, endIndex = 0\<rparr>
        else do {
          firstVisible \<leftarrow>
            firstIndexWhere
              (\<lambda>i. map_option (\<lambda>e. edge < int e) (tableAt table (i + 1))) 0 n;
          pastVisible \<leftarrow>
            firstIndexWhere
              (\<lambda>i. map_option (\<lambda>e. edge + viewportHeight < int e) (tableAt table i)) 0 n;
          let first = firstVisible - extra;
          let past = min n (pastVisible + extra);
          vis \<leftarrow> those (map (visibleItemAt items hm table) [first..<past]);
          Some \<lparr>visibleItems = vis, totalExtent = total, startIndex = first, endIndex = past\<rparr>
        }
      })"

text \<open>
  A sequence of \<open>n\<close> items identified by their index, as the default \<^verbatim>\<open>getId\<close> of
  \<^verbatim>\<open>useVirtualList\<close> identifies them; the payload is not inspected.
\<close>

definition sampleItems :: "nat \<Rightarrow> unit Item list" where
  "sampleItems n = map (\<lambda>i. \<lparr>item_id = NumId (int i), payload = ()\<rparr>) [0..<n]"

text \<open>
  Notions used to state the results: the offset of index \<open>i\<close> as the sum of the heights
  before it, the visible item the engine must produce for index \<open>i\<close>, and what it
  means for \<open>r\<close> to be the first index of \<open>lo..<hi\<close> passing a test (\<open>hi\<close> when none
  does).
\<close>

definition offsetOf :: "heightModel \<Rightarrow> 'a Item list \<Rightarrow> nat \<Rightarrow> nat" where
  "offsetOf hm items i = sum_list (map (heightOf hm) (take i items))"

definition materialize :: "heightModel \<Rightarrow> 'a Item list \<Rightarrow> nat \<Rightarrow> 'a VisibleItem" where
  "materialize hm items i =
     \<lparr>vi_index = i, vi_id = item_id (items ! i), vi_offset = offsetOf hm items i,
      vi_height = heightOf hm (items ! i), vi_data = payload (items ! i)\<rparr>"

definition isFirstIndex :: "(nat \<Rightarrow> bool) \<Rightarrow> nat \<Rightarrow> nat \<Rightarrow> nat \<Rightarrow> bool" where
  "isFirstIndex q lo hi r \<longleftrightarrow>
     lo \<le> r \<and> r \<le> hi \<and> (\<forall>i. lo \<le> i \<and> i < r \<longrightarrow> \<not> q i) \<and> (r < hi \<longrightarrow> q r)"

definition firstVisibleIs :: "heightModel \<Rightarrow> 'a Item list \<Rightarrow> int \<Rightarrow> nat \<Rightarrow> bool" where
  "firstVisibleIs hm items edge r \<longleftrightarrow>
     isFirstIndex (\<lambda>i. edge < int (offsetOf hm items (i + 1))) 0 (length items) r"

definition pastVisibleIs :: "heightModel \<Rightarrow> 'a Item list \<Rightarrow> int \<Rightarrow> nat \<Rightarrow> bool" where
  "pastVisibleIs hm items bottom r \<longleftrightarrow>
     isFirstIndex (\<lambda>i. bottom < int (offsetOf hm items i)) 0 (length items) r"

section \<open>The visibility coordinator's observation targets\<close>

text \<open>
  The documented source creates one \<^verbatim>\<open>IntersectionObserver\<close> when the component is
  mounted and disconnects it when it is unmounted; the code that registers targets and
  keeps the visibility state is not part of it. The definitions of this section follow
  section 3 and section 4.2 of the specification.
\<close>













section \<open>Properties of the draft store\<close>

lemma indexOf_first:
  "x \<in> set xs \<Longrightarrow> indexOf xs x = int (length (takeWhile (\<lambda>y. y \<noteq> x) xs))"
  by (induction xs) (auto simp: Let_def)

lemma find_takeWhile:
  "find P xs = Some x \<Longrightarrow>
     x \<in> set xs \<and> P x \<and> takeWhile (\<lambda>y. y \<noteq> x) xs = takeWhile (\<lambda>y. \<not> P y) xs"
  by (induction xs) (auto split: if_splits)

lemma takeWhile_map_len: "length (takeWhile P (map f xs)) = length (takeWhile (P \<circ> f) xs)"
  by (induction xs) auto

lemma useMessage_found:
  assumes "outId \<in> id_msg ` set ms"
  shows "useMessage outId ms = (int (firstWithId outId ms), ms)"
proof -
  from assms obtain x where x: "find (\<lambda>m. id_msg m = outId) ms = Some x"
    by (cases "find (\<lambda>m. id_msg m = outId) ms") (auto simp: find_None_iff)
  from find_takeWhile[OF x] have "x \<in> set ms" 
    and tw: "takeWhile (\<lambda>y. y \<noteq> x) ms = takeWhile (\<lambda>y. \<not> id_msg y = outId) ms" by auto
  then have "indexOf ms x = int (length (takeWhile (\<lambda>y. \<not> id_msg y = outId) ms))"
    by (simp add: indexOf_first)
  then show ?thesis using x
    by (simp add: useMessage_def firstWithId_def takeWhile_map_len comp_def)
qed

lemma useMessage_fresh:
  assumes "outId \<notin> id_msg ` set ms"
  shows "useMessage outId ms = (int (length ms), ms @ [newMessage outId])"
proof -
  from assms have "find (\<lambda>m. id_msg m = outId) ms = None"
    by (auto simp: find_None_iff)
  then show ?thesis by (simp add: useMessage_def Let_def)
qed

lemma takeWhile_short: "\<exists>x\<in>set xs. \<not> P x \<Longrightarrow> length (takeWhile P xs) < length xs"
  by (induction xs) auto

lemma firstWithId_lt: "outId \<in> id_msg ` set ms \<Longrightarrow> firstWithId outId ms < length ms"
  unfolding firstWithId_def using takeWhile_short[of "map id_msg ms" "\<lambda>i. i \<noteq> outId"]
  by auto

lemma firstWithId_id:
  assumes "outId \<in> id_msg ` set ms"
  shows "id_msg (ms ! firstWithId outId ms) = outId"
proof -
  have lt: "firstWithId outId ms < length (map id_msg ms)"
    using firstWithId_lt[OF assms] by simp
  then have "\<not> (map id_msg ms ! firstWithId outId ms \<noteq> outId)"
    unfolding firstWithId_def by (rule nth_length_takeWhile)
  with lt show ?thesis by simp
qed

lemma firstWithId_fresh:
  "outId \<notin> id_msg ` set ms \<Longrightarrow> firstWithId outId (ms @ [newMessage outId]) = length ms"
proof -
  assume a: "outId \<notin> id_msg ` set ms"
  have "takeWhile (\<lambda>i. i \<noteq> outId) (map id_msg ms @ [outId]) = map id_msg ms @ takeWhile (\<lambda>i. i \<noteq> outId) [outId]"
    using a by (intro takeWhile_append2) auto
  then show ?thesis unfolding firstWithId_def by (simp add: newMessage_def)
qed

lemma firstWithId_prefix:
  assumes "outId \<in> id_msg ` set ms" and "take (length ms) (map id_msg ms2) = map id_msg ms"
  shows "firstWithId outId ms2 = firstWithId outId ms"
proof -
  have "map id_msg ms2 = map id_msg ms @ drop (length ms) (map id_msg ms2)"
    using assms(2) by (metis append_take_drop_id)
  moreover have "takeWhile (\<lambda>i. i \<noteq> outId) (map id_msg ms @ zs) = takeWhile (\<lambda>i. i \<noteq> outId) (map id_msg ms)" for zs
    using assms(1) by (intro takeWhile_append1[where x = outId]) auto
  ultimately show ?thesis unfolding firstWithId_def by metis
qed

lemma idsKept_refl: "idsKept ms ms" by (simp add: idsKept_def)

lemma idsKept_trans: "idsKept a b \<Longrightarrow> idsKept b c \<Longrightarrow> idsKept a c"
  unfolding idsKept_def
  by (metis length_map length_take min.absorb2 nat_le_linear take_all take_take min.commute)

lemma update_ids:
  "getMessage i ms = Some m \<Longrightarrow> id_msg m' = id_msg m \<Longrightarrow> map id_msg (ms[nat i := m']) = map id_msg ms"
  by (auto simp: getMessage_def map_update list_update_same_conv split: if_splits)

lemma perform_idsKept: "perform a ms = Inr ms' \<Longrightarrow> idsKept ms ms'"
proof (cases a)
  case (UseMessage outId)
  assume "perform a ms = Inr ms'"
  with UseMessage show ?thesis
    by (cases "outId \<in> id_msg ` set ms")
       (auto simp: useMessage_found useMessage_fresh idsKept_def)
qed (auto simp: idsKept_def resetMessage_def setMessageText_def setMessageFile_def
      resetMessageFile_def setReply_def resetReply_def setForceSendMessage_def update_ids
      split: option.splits)

lemma performAll_idsKept: "performAll as ms = Inr ms' \<Longrightarrow> idsKept ms ms'"
proof (induction as arbitrary: ms)
  case Nil then show ?case by (simp add: idsKept_refl)
next
  case (Cons a as)
  then show ?case
    by (auto split: sum.splits intro: idsKept_trans perform_idsKept)
qed


lemma find_nth_first:
  "find P xs = Some x \<Longrightarrow> xs ! length (takeWhile (\<lambda>y. \<not> P y) xs) = x"
  by (induction xs) (auto split: if_splits)

lemma firstWithId_found:
  assumes "find (\<lambda>m. id_msg m = outId) ms = Some x"
  shows "ms ! firstWithId outId ms = x"
  using find_nth_first[OF assms]
  by (simp add: firstWithId_def takeWhile_map_len comp_def)

lemma getMessage_nat: "n < length ms \<Longrightarrow> getMessage (int n) ms = Some (ms ! n)"
  by (simp add: getMessage_def)

text \<open>
  Claim C9. After \<^verbatim>\<open>useMessage(outId)\<close>, \<^verbatim>\<open>getMessage()\<close> returns a draft whose id
  is \<open>outId\<close>. If no draft had that id, the list has grown by exactly one draft with
  empty text, no file, no reply and \<open>forceSend = False\<close>, and that draft is the one
  returned; otherwise the list is unchanged and the draft found is returned. The list is
  the one shared list: whatever sequence of calls (\<open>as\<close>) the rest of the process makes
  on it afterwards, a later \<^verbatim>\<open>useMessage(outId)\<close> adds nothing and yields the same
  \<open>index\<close>, so both handles read and write the same slot, and the draft in that slot
  still has id \<open>outId\<close>.
\<close>

theorem useMessage_shared_draft:
  assumes u: "useMessage outId messages = (index, messages')"
    and p: "performAll as messages' = Inr messages''"
  shows "messages' =
           (if find (\<lambda>m. id_msg m = outId) messages = None
            then messages @ [\<lparr>id_msg = outId, text_msg = [], file_msg = None,
                              reply_msg = None, forceSend = False\<rparr>]
            else messages)
       \<and> (\<exists>m. getMessage index messages' = Some m \<and> id_msg m = outId
              \<and> m = (case find (\<lambda>m. id_msg m = outId) messages of
                       None \<Rightarrow> \<lparr>id_msg = outId, text_msg = [], file_msg = None,
                                 reply_msg = None, forceSend = False\<rparr>
                     | Some foundMessage \<Rightarrow> foundMessage))
       \<and> useMessage outId messages'' = (index, messages'')
       \<and> (\<exists>m. getMessage index messages'' = Some m \<and> id_msg m = outId)"
proof -
  let ?fresh = "newMessage outId"
  let ?found = "find (\<lambda>m. id_msg m = outId) messages"
  have facts: "outId \<in> id_msg ` set messages'
      \<and> index = int (firstWithId outId messages')
      \<and> messages' = (if ?found = None then messages @ [?fresh] else messages)
      \<and> messages' ! firstWithId outId messages' =
          (case ?found of None \<Rightarrow> ?fresh | Some foundMessage \<Rightarrow> foundMessage)"
  proof (cases "outId \<in> id_msg ` set messages")
    case True
    then obtain x where x: "?found = Some x"
      by (cases ?found) (auto simp: find_None_iff)
    from True u have "messages' = messages" "index = int (firstWithId outId messages)"
      by (auto simp add: useMessage_found)
    with True x firstWithId_found[OF x] show ?thesis by simp
  next
    case False
    then have n: "?found = None"
      by (auto simp: find_None_iff)
    from False u have "messages' = messages @ [?fresh]" "index = int (length messages)"
      by (auto simp add: useMessage_fresh)
    with n firstWithId_fresh[OF False] show ?thesis by (simp add: newMessage_def)
  qed
  then have in': "outId \<in> id_msg ` set messages'"
    and idx: "index = int (firstWithId outId messages')"
    and first: "messages' = (if ?found = None then messages @ [?fresh] else messages)"
    and at: "messages' ! firstWithId outId messages' =
          (case ?found of None \<Rightarrow> ?fresh | Some foundMessage \<Rightarrow> foundMessage)"
    by blast+
  have kept: "idsKept messages' messages''" using p by (rule performAll_idsKept)
  then have pre: "take (length messages') (map id_msg messages'') = map id_msg messages'"
    by (simp add: idsKept_def)
  have same: "firstWithId outId messages'' = firstWithId outId messages'"
    using in' pre by (rule firstWithId_prefix)
  have "set (map id_msg messages') \<subseteq> set (map id_msg messages'')"
    using pre by (metis set_take_subset)
  with in' have in'': "outId \<in> id_msg ` set messages''" by auto
  have c1: "getMessage index messages' = Some (messages' ! firstWithId outId messages')"
    using idx firstWithId_lt[OF in'] by (simp add: getMessage_nat)
  have c2: "getMessage index messages'' = Some (messages'' ! firstWithId outId messages'')"
    using idx same firstWithId_lt[OF in''] by (simp add: getMessage_nat)
  have c3: "useMessage outId messages'' = (index, messages'')"
    using useMessage_found[OF in''] idx same by simp
  show ?thesis
    using first at c1 c2 c3 firstWithId_id[OF in'] firstWithId_id[OF in'']
    by (auto simp add: newMessage_def split: option.splits)
qed

text \<open>
  Claim C9, witness: a first call on the empty list, then a text change, a second id and
  a force-send through the first handle, then \<^verbatim>\<open>useMessage\<close> for the first id again.
\<close>

theorem useMessage_shared_draft_witness:
  "useMessage ''a'' [] = (0, [newMessage ''a''])
   \<and> performAll [SetMessageText ''hi'' 0, UseMessage ''b'', SetForceSendMessage True 0]
        [newMessage ''a''] =
      Inr [\<lparr>id_msg = ''a'', text_msg = ''hi'', file_msg = None, reply_msg = None,
            forceSend = True\<rparr>, newMessage ''b'']
   \<and> getMessage 0 [newMessage ''a''] = Some (newMessage ''a'')
   \<and> useMessage ''a'' [\<lparr>id_msg = ''a'', text_msg = ''hi'', file_msg = None, reply_msg = None,
            forceSend = True\<rparr>, newMessage ''b''] =
      (0, [\<lparr>id_msg = ''a'', text_msg = ''hi'', file_msg = None, reply_msg = None,
            forceSend = True\<rparr>, newMessage ''b''])"
proof -
  have u: "useMessage ''a'' [] = (0, [newMessage ''a''])"
    by (simp add: useMessage_def)
  have p: "performAll [SetMessageText ''hi'' 0, UseMessage ''b'', SetForceSendMessage True 0]
        [newMessage ''a''] =
      Inr [\<lparr>id_msg = ''a'', text_msg = ''hi'', file_msg = None, reply_msg = None,
            forceSend = True\<rparr>, newMessage ''b'']"
    by (simp add: useMessage_def setMessageText_def setForceSendMessage_def getMessage_def
        newMessage_def)
  show ?thesis
    using u p useMessage_shared_draft[OF u p] by (simp add: newMessage_def)
qed

text \<open>
  Claim C10. On a draft \<open>m\<close> in the handle's slot, each of \<^verbatim>\<open>setMessageText\<close>,
  \<^verbatim>\<open>setMessageFile\<close>, \<^verbatim>\<open>resetMessageFile\<close>, \<^verbatim>\<open>setReply\<close> and \<^verbatim>\<open>resetReply\<close>
  replaces the slot by \<open>m\<close> with its one target field changed and \<open>forceSend\<close> set to
  \<open>False\<close>: the id and the other fields are those of \<open>m\<close>, whatever \<open>forceSend m\<close>
  was, and the other slots of the list are untouched. \<^verbatim>\<open>resetMessage\<close> also leaves
  \<open>forceSend = False\<close>. \<^verbatim>\<open>setForceSendMessage val\<close> changes \<open>forceSend\<close> to \<open>val\<close> and
  nothing else, so it is the only one that can make it \<open>True\<close>.
\<close>

theorem draft_setters_frame:
  assumes "getMessage index messages = Some m"
  shows "setMessageText t index messages =
           Inr (messages[nat index := m\<lparr>text_msg := t, forceSend := False\<rparr>])
       \<and> setMessageFile f index messages =
           Inr (messages[nat index := m\<lparr>file_msg := Some f, forceSend := False\<rparr>])
       \<and> resetMessageFile index messages =
           Inr (messages[nat index := m\<lparr>file_msg := None, forceSend := False\<rparr>])
       \<and> setReply r index messages =
           Inr (messages[nat index := m\<lparr>reply_msg := Some r, forceSend := False\<rparr>])
       \<and> resetReply index messages =
           Inr (messages[nat index := m\<lparr>reply_msg := None, forceSend := False\<rparr>])
       \<and> resetMessage index messages =
           Inr (messages[nat index := m\<lparr>text_msg := [], file_msg := None,
                                          reply_msg := None, forceSend := False\<rparr>])
       \<and> setForceSendMessage val index messages =
           Inr (messages[nat index := m\<lparr>forceSend := val\<rparr>])"
  using assms
  by (cases m) (simp add: setMessageText_def setMessageFile_def resetMessageFile_def setReply_def
      resetReply_def resetMessage_def setForceSendMessage_def)

text \<open>Claim C10, witness: a draft that has \<open>forceSend = True\<close> before the calls.\<close>

theorem draft_setters_frame_witness:
  "getMessage 0 [\<lparr>id_msg = ''a'', text_msg = ''hi'', file_msg = None, reply_msg = None,
                   forceSend = True\<rparr>] =
     Some \<lparr>id_msg = ''a'', text_msg = ''hi'', file_msg = None, reply_msg = None,
           forceSend = True\<rparr>
   \<and> setMessageText ''yo'' 0
        [\<lparr>id_msg = ''a'', text_msg = ''hi'', file_msg = None, reply_msg = None,
          forceSend = True\<rparr>] =
      Inr [\<lparr>id_msg = ''a'', text_msg = ''yo'', file_msg = None, reply_msg = None,
            forceSend = False\<rparr>]
   \<and> setForceSendMessage True 0
        [\<lparr>id_msg = ''a'', text_msg = ''hi'', file_msg = None, reply_msg = None,
          forceSend = True\<rparr>] =
      Inr [\<lparr>id_msg = ''a'', text_msg = ''hi'', file_msg = None, reply_msg = None,
            forceSend = True\<rparr>]"
proof -
  have g: "getMessage 0 [\<lparr>id_msg = ''a'', text_msg = ''hi'', file_msg = None,
                          reply_msg = None, forceSend = True\<rparr>] =
     Some \<lparr>id_msg = ''a'', text_msg = ''hi'', file_msg = None, reply_msg = None,
           forceSend = True\<rparr>"
    by (simp add: getMessage_def)
  show ?thesis
    using g draft_setters_frame[OF g, of "''yo''"
        "\<lparr>url_file = ''u'', name_file = ''n'', size_file = 1, type_file = ''t''\<rparr>"
        "\<lparr>messageId_reply = ''r'', type_reply = ''text'', text_reply = None, url_reply = None,
          filename = None\<rparr>" True] by simp
qed

section \<open>Properties of the scroll handler and of the observer callback\<close>

lemma handleScroll_count:
  "count_list (snd (handleScroll c st)) LoadMore = (if inTopZone c then 1 else 0)"
  by (auto simp: handleScroll_def inTopZone_def Let_def split: option.splits)

text \<open>
  Claim C1, as the code has it. \<^verbatim>\<open>handleScroll\<close> keeps no armed or disarmed state:
  over any sequence of scroll events, \<^verbatim>\<open>loadMore\<close> is emitted once for every event
  at which the container is set and \<open>scrollTop < 300\<close>, also for events that stay
  inside the zone.
\<close>

theorem loadMore_level_triggered:
  "count_list (snd (scrollEvents cs st)) LoadMore = length (filter inTopZone cs)"
proof (induction cs arbitrary: st)
  case Nil
  show ?case by simp
next
  case (Cons c cs)
  obtain st' es where h: "handleScroll c st = (st', es)" by (cases "handleScroll c st")
  obtain st'' es' where r: "scrollEvents cs st' = (st'', es')" by (cases "scrollEvents cs st'")
  have "count_list es LoadMore = (if inTopZone c then 1 else 0)"
    using handleScroll_count[of c st] h by simp
  moreover have "count_list es' LoadMore = length (filter inTopZone cs)"
    using Cons.IH[of st'] r by simp
  ultimately show ?case using h r by simp
qed

text \<open>
  Claim C1, witness of the statement above: four events, three of them inside the zone.
\<close>

theorem loadMore_level_triggered_witness:
  "count_list (snd (scrollEvents
       [Some \<lparr>scrollTop = 100, scrollHeight = 5000, clientHeight = 800\<rparr>,
        Some \<lparr>scrollTop = 90, scrollHeight = 5000, clientHeight = 800\<rparr>,
        Some \<lparr>scrollTop = 400, scrollHeight = 5000, clientHeight = 800\<rparr>,
        Some \<lparr>scrollTop = 0, scrollHeight = 5000, clientHeight = 800\<rparr>] 0)) LoadMore = 3"
  using loadMore_level_triggered[of
       "[Some \<lparr>scrollTop = 100, scrollHeight = 5000, clientHeight = 800\<rparr>,
         Some \<lparr>scrollTop = 90, scrollHeight = 5000, clientHeight = 800\<rparr>,
         Some \<lparr>scrollTop = 400, scrollHeight = 5000, clientHeight = 800\<rparr>,
         Some \<lparr>scrollTop = 0, scrollHeight = 5000, clientHeight = 800\<rparr>]" 0]
  by (simp add: inTopZone_def)

text \<open>
  Claim C1, counterexample to "exactly once per crossing": the first event is outside
  the zone, the second enters it, the third stays inside; \<^verbatim>\<open>loadMore\<close> is emitted at
  the second and again at the third.
\<close>

theorem loadMore_refires_inside_zone:
  "\<not> scrollTop \<lparr>scrollTop = 500, scrollHeight = 5000, clientHeight = 800\<rparr> < 300
   \<and> scrollTop \<lparr>scrollTop = 100, scrollHeight = 5000, clientHeight = 800\<rparr> < 300
   \<and> scrollTop \<lparr>scrollTop = 50, scrollHeight = 5000, clientHeight = 800\<rparr> < 300
   \<and> snd (scrollEvents
        [Some \<lparr>scrollTop = 500, scrollHeight = 5000, clientHeight = 800\<rparr>,
         Some \<lparr>scrollTop = 100, scrollHeight = 5000, clientHeight = 800\<rparr>,
         Some \<lparr>scrollTop = 50, scrollHeight = 5000, clientHeight = 800\<rparr>] 0) =
       [EmitVisibleMessages, LoadMore, EmitVisibleMessages, LoadMore, EmitVisibleMessages]"
  by (simp add: handleScroll_def)

text \<open>
  Claim C2, as the code has it. One invocation of the observer callback emits one
  \<^verbatim>\<open>messageVisible\<close> event per intersecting entry whose \<^verbatim>\<open>data-message-id\<close> is a
  non-empty string, in the order of the entries, each carrying that one identifier.
\<close>

theorem observerCallback_one_event_per_entry:
  "observerCallback entries =
     map (\<lambda>entry. MessageVisible (the (dataMessageId entry))) (filter reportsId entries)"
  by (induction entries) (auto simp: observerCallback_def reportsId_def split: option.splits)

text \<open>
  Claim C2, witness of the statement above: three entries, one of them not
  intersecting.
\<close>

theorem observerCallback_one_event_per_entry_witness:
  "observerCallback
     [\<lparr>isIntersecting = True, dataMessageId = Some ''m1''\<rparr>,
      \<lparr>isIntersecting = False, dataMessageId = Some ''m2''\<rparr>,
      \<lparr>isIntersecting = True, dataMessageId = Some ''m3''\<rparr>] =
   [MessageVisible ''m1'', MessageVisible ''m3'']"
  using observerCallback_one_event_per_entry[of
     "[\<lparr>isIntersecting = True, dataMessageId = Some ''m1''\<rparr>,
       \<lparr>isIntersecting = False, dataMessageId = Some ''m2''\<rparr>,
       \<lparr>isIntersecting = True, dataMessageId = Some ''m3''\<rparr>]"]
  by (simp add: reportsId_def)

text \<open>
  Claim C2, counterexample to "exactly one event carrying the set": one invocation with
  two intersecting entries emits two events.
\<close>

theorem observerCallback_two_events:
  "observerCallback
     [\<lparr>isIntersecting = True, dataMessageId = Some ''m1''\<rparr>,
      \<lparr>isIntersecting = True, dataMessageId = Some ''m2''\<rparr>] =
   [MessageVisible ''m1'', MessageVisible ''m2'']"
  by (simp add: observerCallback_def)

section \<open>Properties of the windowing engine\<close>

subsection \<open>The binary search finds the first index\<close>

lemma isFirstIndex_left:
  assumes "isFirstIndex q lo mid r" "q mid" "mid < hi"
  shows "isFirstIndex q lo hi r"
proof -
  from assms(1) have a: "lo \<le> r" "r \<le> mid" "\<forall>i. lo \<le> i \<and> i < r \<longrightarrow> \<not> q i" "r < mid \<longrightarrow> q r"
    unfolding isFirstIndex_def by blast+
  have "q r" using a(2,4) assms(2) by (cases "r = mid") simp_all
  with a assms(3) show ?thesis unfolding isFirstIndex_def by simp
qed

lemma isFirstIndex_right:
  assumes "isFirstIndex q (mid + 1) hi r" "\<And>i. lo \<le> i \<Longrightarrow> i \<le> mid \<Longrightarrow> \<not> q i" "lo \<le> mid"
  shows "isFirstIndex q lo hi r"
proof -
  from assms(1) have a: "mid + 1 \<le> r" "r \<le> hi" "\<forall>i. mid + 1 \<le> i \<and> i < r \<longrightarrow> \<not> q i" "r < hi \<longrightarrow> q r"
    unfolding isFirstIndex_def by blast+
  have "\<not> q i" if "lo \<le> i" "i < r" for i
  proof (cases "i \<le> mid")
    case True
    with that assms(2) show ?thesis by simp
  next
    case False
    with that a(3) show ?thesis by simp
  qed
  with a assms(3) show ?thesis unfolding isFirstIndex_def by simp
qed


lemma firstIndexWhere_step_true:
  "lo < hi \<Longrightarrow> p ((lo + hi) div 2) = Some True \<Longrightarrow>
   firstIndexWhere p lo hi = firstIndexWhere p lo ((lo + hi) div 2)"
  by (subst firstIndexWhere.simps) simp

lemma firstIndexWhere_step_false:
  "lo < hi \<Longrightarrow> p ((lo + hi) div 2) = Some False \<Longrightarrow>
   firstIndexWhere p lo hi = firstIndexWhere p ((lo + hi) div 2 + 1) hi"
  by (subst firstIndexWhere.simps) simp

lemma firstIndexWhere_done: "\<not> lo < hi \<Longrightarrow> firstIndexWhere p lo hi = Some lo"
  by (subst firstIndexWhere.simps) simp

lemma firstIndexWhere_correct:
  assumes "lo \<le> hi"
    and "\<And>i. lo \<le> i \<Longrightarrow> i < hi \<Longrightarrow> p i = Some (q i)"
    and "\<And>i j. lo \<le> i \<Longrightarrow> i \<le> j \<Longrightarrow> j < hi \<Longrightarrow> q i \<Longrightarrow> q j"
  shows "\<exists>r. firstIndexWhere p lo hi = Some r \<and> isFirstIndex q lo hi r"
  using assms
proof (induction "hi - lo" arbitrary: lo hi rule: less_induct)
  case less
  show ?case
  proof (cases "lo < hi")
    case False
    with less.prems(1) have "lo = hi" by simp
    then have "firstIndexWhere p lo hi = Some lo"
      by (simp add: firstIndexWhere_done)
    moreover have "isFirstIndex q lo hi lo"
      using \<open>lo = hi\<close> unfolding isFirstIndex_def by auto
    ultimately show ?thesis by blast
  next
    case True
    let ?mid = "(lo + hi) div 2"
    have m: "lo \<le> ?mid" "?mid < hi" using True by simp_all
    have pm: "p ?mid = Some (q ?mid)" using less.prems(2)[OF m] .
    show ?thesis
    proof (cases "q ?mid")
      case qm: True
      have "\<exists>r. firstIndexWhere p lo ?mid = Some r \<and> isFirstIndex q lo ?mid r"
      proof (rule less.hyps)
        show "?mid - lo < hi - lo" using m by simp
        show "lo \<le> ?mid" by fact
        show "p i = Some (q i)" if "lo \<le> i" "i < ?mid" for i
          using less.prems(2)[of i] that m by simp
        show "q j" if "lo \<le> i" "i \<le> j" "j < ?mid" "q i" for i j
          using less.prems(3)[of i j] that m by simp
      qed
      then obtain r where r: "firstIndexWhere p lo ?mid = Some r" "isFirstIndex q lo ?mid r"
        by blast
      have "isFirstIndex q lo hi r"
        using r(2) qm m(2) by (rule isFirstIndex_left)
      moreover have "firstIndexWhere p lo hi = firstIndexWhere p lo ?mid"
        using True pm qm by (intro firstIndexWhere_step_true) simp_all
      ultimately show ?thesis using r(1) by simp
    next
      case qm: False
      have "\<exists>r. firstIndexWhere p (?mid + 1) hi = Some r \<and> isFirstIndex q (?mid + 1) hi r"
      proof (rule less.hyps)
        show "hi - (?mid + 1) < hi - lo" using m by simp
        show "?mid + 1 \<le> hi" using m by simp
        show "p i = Some (q i)" if "?mid + 1 \<le> i" "i < hi" for i
          using less.prems(2)[of i] that m by simp
        show "q j" if "?mid + 1 \<le> i" "i \<le> j" "j < hi" "q i" for i j
          using less.prems(3)[of i j] that m by simp
      qed
      then obtain r where r: "firstIndexWhere p (?mid + 1) hi = Some r"
        "isFirstIndex q (?mid + 1) hi r"
        by blast
      have below: "\<not> q i" if "lo \<le> i" "i \<le> ?mid" for i
        using less.prems(3)[of i ?mid] that m qm by blast
      have "isFirstIndex q lo hi r"
        using r(2) below m(1) by (rule isFirstIndex_right)
      moreover have "firstIndexWhere p lo hi = firstIndexWhere p (?mid + 1) hi"
        using True pm qm by (intro firstIndexWhere_step_false) simp_all
      ultimately show ?thesis using r(1) by simp
    qed
  qed
qed

lemma length_cumulativeFrom: "length (cumulativeFrom a hs) = Suc (length hs)"
  by (induction hs arbitrary: a) auto

lemma nth_cumulativeFrom:
  "i \<le> length hs \<Longrightarrow> cumulativeFrom a hs ! i = a + sum_list (take i hs)"
proof (induction hs arbitrary: a i)
  case Nil
  then show ?case by simp
next
  case (Cons h hs)
  then show ?case by (cases i) auto
qed

lemma length_cumulativeOffsets: "length (cumulativeOffsets hs) = Suc (length hs)"
  by (simp add: cumulativeOffsets_def length_cumulativeFrom)

lemma nth_cumulativeOffsets:
  "i \<le> length hs \<Longrightarrow> cumulativeOffsets hs ! i = sum_list (take i hs)"
  by (simp add: cumulativeOffsets_def nth_cumulativeFrom)

lemma sum_list_take_mono:
  fixes hs :: "nat list"
  assumes "i \<le> j"
  shows "sum_list (take i hs) \<le> sum_list (take j hs)"
proof -
  have "take j hs = take i hs @ take (j - i) (drop i hs)"
    using assms by (metis le_add_diff_inverse take_add)
  then show ?thesis by simp
qed

lemma cumulativeOffsets_mono:
  "i \<le> j \<Longrightarrow> j \<le> length hs \<Longrightarrow> cumulativeOffsets hs ! i \<le> cumulativeOffsets hs ! j"
  by (simp add: nth_cumulativeOffsets sum_list_take_mono)

lemma tableAt_cumulativeOffsets:
  "i \<le> length hs \<Longrightarrow> tableAt (cumulativeOffsets hs) i = Some (sum_list (take i hs))"
  by (simp add: tableAt_def length_cumulativeOffsets nth_cumulativeOffsets)


lemma those_map_Some:
  "(\<And>x. x \<in> set xs \<Longrightarrow> f x = Some (g x)) \<Longrightarrow> those (map f xs) = Some (map g xs)"
  by (induction xs) auto

lemma tableAt_offsets:
  "i \<le> length items \<Longrightarrow>
   tableAt (cumulativeOffsets (map (heightOf hm) items)) i = Some (offsetOf hm items i)"
  by (simp add: tableAt_cumulativeOffsets offsetOf_def take_map)

lemma offsetOf_mono: "i \<le> j \<Longrightarrow> offsetOf hm items i \<le> offsetOf hm items j"
  unfolding offsetOf_def take_map[symmetric] by (rule sum_list_take_mono)

lemma offsetOf_all: "offsetOf hm items (length items) = sum_list (map (heightOf hm) items)"
  by (simp add: offsetOf_def)

lemma visibleItemAt_materialize:
  "i < length items \<Longrightarrow>
   visibleItemAt items hm (cumulativeOffsets (map (heightOf hm) items)) i =
     Some (materialize hm items i)"
  by (simp add: visibleItemAt_def tableAt_offsets materialize_def) (simp add: tableAt_def)

lemma search_firstVisible:
  "\<exists>r. firstIndexWhere
         (\<lambda>i. map_option (\<lambda>e. edge < int e)
                (tableAt (cumulativeOffsets (map (heightOf hm) items)) (i + 1)))
         0 (length items) = Some r
       \<and> firstVisibleIs hm items edge r"
  unfolding firstVisibleIs_def
proof (rule firstIndexWhere_correct)
  show "0 \<le> length items" by simp
  show "map_option (\<lambda>e. edge < int e)
          (tableAt (cumulativeOffsets (map (heightOf hm) items)) (i + 1)) =
        Some (edge < int (offsetOf hm items (i + 1)))" if "i < length items" for i
    using that by (simp add: tableAt_offsets)
  show "edge < int (offsetOf hm items (j + 1))"
    if "i \<le> j" "edge < int (offsetOf hm items (i + 1))" for i j
    using that offsetOf_mono[of "i + 1" "j + 1" hm items] by simp
qed

lemma search_pastVisible:
  "\<exists>r. firstIndexWhere
         (\<lambda>i. map_option (\<lambda>e. bottom < int e)
                (tableAt (cumulativeOffsets (map (heightOf hm) items)) i))
         0 (length items) = Some r
       \<and> pastVisibleIs hm items bottom r"
  unfolding pastVisibleIs_def
proof (rule firstIndexWhere_correct)
  show "0 \<le> length items" by simp
  show "map_option (\<lambda>e. bottom < int e)
          (tableAt (cumulativeOffsets (map (heightOf hm) items)) i) =
        Some (bottom < int (offsetOf hm items i))" if "i < length items" for i
    using that by (simp add: tableAt_offsets)
  show "bottom < int (offsetOf hm items j)"
    if "i \<le> j" "bottom < int (offsetOf hm items i)" for i j
    using that offsetOf_mono[of i j hm items] by simp
qed

lemma firstVisible_le_pastVisible:
  assumes "firstVisibleIs hm items edge r1" "pastVisibleIs hm items (edge + v) r2" "0 \<le> v"
  shows "r1 \<le> r2"
proof (rule ccontr)
  assume "\<not> r1 \<le> r2"
  then have lt: "r2 < r1" by simp
  from assms(1) have r1: "r1 \<le> length items"
    "\<forall>i. 0 \<le> i \<and> i < r1 \<longrightarrow> \<not> edge < int (offsetOf hm items (i + 1))"
    unfolding firstVisibleIs_def isFirstIndex_def by blast+
  from assms(2) have r2: "r2 < length items \<longrightarrow> edge + v < int (offsetOf hm items r2)"
    unfolding pastVisibleIs_def isFirstIndex_def by blast
  from lt r1(1) r2 have "edge + v < int (offsetOf hm items r2)" by simp
  moreover have "offsetOf hm items r2 \<le> offsetOf hm items (r2 + 1)"
    by (rule offsetOf_mono) simp
  ultimately have "edge < int (offsetOf hm items (r2 + 1))" using assms(3) by simp
  with r1(2) lt show False by simp
qed

lemma computeWindow_closed_viewport:
  assumes "viewportHeight \<le> 0"
  shows "computeWindow items hm viewportHeight scrollOffset overscan =
     Some \<lparr>visibleItems = [], totalExtent = sum_list (map (heightOf hm) items),
           startIndex = 0, endIndex = 0\<rparr>"
  using assms tableAt_offsets[of "length items" items hm]
  by (simp add: computeWindow_def offsetOf_all)

lemma computeWindow_open_viewport:
  assumes "0 < viewportHeight"
  shows "\<exists>r1 r2.
     firstVisibleIs hm items (max 0 scrollOffset) r1
     \<and> pastVisibleIs hm items (max 0 scrollOffset + viewportHeight) r2
     \<and> r1 \<le> r2
     \<and> computeWindow items hm viewportHeight scrollOffset overscan =
        Some \<lparr>visibleItems =
                map (materialize hm items)
                  [r1 - nat (max 0 overscan) ..< min (length items) (r2 + nat (max 0 overscan))],
              totalExtent = sum_list (map (heightOf hm) items),
              startIndex = r1 - nat (max 0 overscan),
              endIndex = min (length items) (r2 + nat (max 0 overscan))\<rparr>"
proof -
  let ?table = "cumulativeOffsets (map (heightOf hm) items)"
  let ?top = "max 0 scrollOffset"
  let ?extra = "nat (max 0 overscan)"
  obtain r1 where r1: "firstIndexWhere
         (\<lambda>i. map_option (\<lambda>e. ?top < int e) (tableAt ?table (i + 1))) 0 (length items) = Some r1"
       "firstVisibleIs hm items ?top r1"
    using search_firstVisible[of ?top hm items] by blast
  obtain r2 where r2: "firstIndexWhere
         (\<lambda>i. map_option (\<lambda>e. ?top + viewportHeight < int e) (tableAt ?table i)) 0 (length items) = Some r2"
       "pastVisibleIs hm items (?top + viewportHeight) r2"
    using search_pastVisible[of "?top + viewportHeight" hm items] by blast
  have le: "r1 \<le> r2"
    using r1(2) r2(2) assms by (intro firstVisible_le_pastVisible[of hm items ?top r1 viewportHeight r2]) simp_all
  have vis: "those (map (visibleItemAt items hm ?table)
                 [r1 - ?extra ..< min (length items) (r2 + ?extra)]) =
             Some (map (materialize hm items) [r1 - ?extra ..< min (length items) (r2 + ?extra)])"
    by (rule those_map_Some) (simp add: visibleItemAt_materialize)
  have total: "tableAt ?table (length items) = Some (sum_list (map (heightOf hm) items))"
    using tableAt_offsets[of "length items" items hm] by (simp add: offsetOf_all)
  have "computeWindow items hm viewportHeight scrollOffset overscan =
        Some \<lparr>visibleItems =
                map (materialize hm items) [r1 - ?extra ..< min (length items) (r2 + ?extra)],
              totalExtent = sum_list (map (heightOf hm) items),
              startIndex = r1 - ?extra,
              endIndex = min (length items) (r2 + ?extra)\<rparr>"
    using assms r1(1) r2(1) vis total by (simp add: computeWindow_def Let_def)
  with r1(2) r2(2) le show ?thesis by blast
qed

subsection \<open>Results\<close>

lemma computeWindow_total:
  "\<exists>w. computeWindow items hm viewportHeight scrollOffset overscan = Some w
       \<and> totalExtent w = sum_list (map (heightOf hm) items)
       \<and> visibleItems w = map (materialize hm items) [startIndex w ..< endIndex w]
       \<and> startIndex w \<le> endIndex w \<and> endIndex w \<le> length items"
proof (cases "viewportHeight \<le> 0")
  case True
  then show ?thesis by (simp add: computeWindow_closed_viewport)
next
  case False
  then have "0 < viewportHeight" by simp
  from computeWindow_open_viewport[OF this, of hm items scrollOffset overscan]
  obtain r1 r2 where fv: "firstVisibleIs hm items (max 0 scrollOffset) r1" and "r1 \<le> r2"
    and cw: "computeWindow items hm viewportHeight scrollOffset overscan =
        Some \<lparr>visibleItems =
                map (materialize hm items)
                  [r1 - nat (max 0 overscan) ..< min (length items) (r2 + nat (max 0 overscan))],
              totalExtent = sum_list (map (heightOf hm) items),
              startIndex = r1 - nat (max 0 overscan),
              endIndex = min (length items) (r2 + nat (max 0 overscan))\<rparr>"
    by blast
  from fv have "r1 \<le> length items"
    by (simp add: firstVisibleIs_def isFirstIndex_def)
  with \<open>r1 \<le> r2\<close>
  have "r1 - nat (max 0 overscan) \<le> min (length items) (r2 + nat (max 0 overscan))"
    by linarith
  then show ?thesis unfolding cw by simp
qed

text \<open>
  Claim C5. The total extent returned by \<^verbatim>\<open>computeWindow\<close> is the sum of all item
  heights, for every item list and height model; the right-hand side mentions neither
  the scroll offset nor the overscan nor the viewport height, so it does not depend on
  them; it is 0 for the empty sequence.
\<close>

theorem totalExtent_is_sum_of_heights:
  "map_option totalExtent (computeWindow (items :: 'a Item list) hm viewportHeight scrollOffset overscan) =
     Some (sum_list (map (heightOf hm) items))
   \<and> map_option totalExtent
        (computeWindow ([] :: 'a Item list) hm viewportHeight scrollOffset overscan) = Some 0"
proof -
  have "map_option totalExtent (computeWindow its hm viewportHeight scrollOffset overscan) =
     Some (sum_list (map (heightOf hm) its))" for its :: "'a Item list"
    using computeWindow_total[of its hm viewportHeight scrollOffset overscan] by auto
  from this[of items] this[of "[]"] show ?thesis by simp
qed

text \<open>Claim C5, witness: three items of heights 10, 0 and 7, scrolled and overscanned.\<close>

theorem totalExtent_is_sum_of_heights_witness:
  "map_option totalExtent
     (computeWindow
        [\<lparr>item_id = NumId 0, payload = ()\<rparr>, \<lparr>item_id = NumId 1, payload = ()\<rparr>,
         \<lparr>item_id = NumId 2, payload = ()\<rparr>]
        (HeightLookup
           (\<lambda>t. if t = NumId 0 then Some 10 else if t = NumId 1 then Some 0 else None) 7)
        15 12 2) = Some 17"
proof -
  have "map_option totalExtent
     (computeWindow
        [\<lparr>item_id = NumId 0, payload = ()\<rparr>, \<lparr>item_id = NumId 1, payload = ()\<rparr>,
         \<lparr>item_id = NumId 2, payload = ()\<rparr>]
        (HeightLookup
           (\<lambda>t. if t = NumId 0 then Some 10 else if t = NumId 1 then Some 0 else None) 7)
        15 12 2) =
     Some (sum_list (map (heightOf (HeightLookup
           (\<lambda>t. if t = NumId 0 then Some 10 else if t = NumId 1 then Some 0 else None) 7))
        [\<lparr>item_id = NumId 0, payload = ()\<rparr>, \<lparr>item_id = NumId 1, payload = ()\<rparr>,
         \<lparr>item_id = NumId 2, payload = ()\<rparr>]))"
    using totalExtent_is_sum_of_heights[of
        "[\<lparr>item_id = NumId 0, payload = ()\<rparr>, \<lparr>item_id = NumId 1, payload = ()\<rparr>,
          \<lparr>item_id = NumId 2, payload = ()\<rparr>]"
        "HeightLookup
           (\<lambda>t. if t = NumId 0 then Some 10 else if t = NumId 1 then Some 0 else None) 7"
        15 12 2]
    by (rule conjunct1)
  then show ?thesis by simp
qed

text \<open>
  Claim C6. For every item list, height model, viewport height, scroll offset (negative
  ones included) and overscan, \<^verbatim>\<open>computeWindow\<close> returns a window with
  \<open>0 \<le> startIndex \<le> endIndex \<le> length\<close>.
\<close>

theorem window_within_bounds:
  "\<exists>w. computeWindow items hm viewportHeight scrollOffset overscan = Some w
       \<and> 0 \<le> startIndex w \<and> startIndex w \<le> endIndex w \<and> endIndex w \<le> length items"
  using computeWindow_total[of items hm viewportHeight scrollOffset overscan] by auto

text \<open>Claim C6, witness: a scroll offset beyond the content, with overscan.\<close>

theorem window_within_bounds_witness:
  "\<exists>w. computeWindow (sampleItems 3) (FixedHeight 10) 10 500 1 = Some w
       \<and> 0 \<le> startIndex w \<and> startIndex w \<le> endIndex w
       \<and> endIndex w \<le> length (sampleItems 3)"
  using window_within_bounds[of "sampleItems 3" "FixedHeight 10" 10 500 1] by simp

section \<open>Properties of the coordinator\<close>















end
